theory Spec2Isabelle
  imports Main "HOL-Library.Word"
begin

unbundle bit_operations_syntax

section \<open>Data model of \<open>utf8clen.h\<close>\<close>

text \<open>
  \<open>unsigned char\<close> is an 8-bit word, \<open>size_t\<close> a 64-bit word (LP64).  The pointer
  \<open>s\<close> is modelled by the bytes of the object it points into, from \<open>s\<close> to the end
  of that object, so \<open>s[i]\<close> is the \<open>i\<close>-th element of the list; a read at or past
  the end of the list is the fault \<open>OutOfBounds\<close> (undefined behaviour in C).
  A null pointer is \<open>None\<close>.  The output pointer \<open>illlen\<close> is an address into a
  store of \<open>size_t\<close> cells; \<open>errno\<close> is a field of the state.  The cursor of the
  specification is the pointer \<open>s\<close> itself: the byte at offset \<open>cursor + i\<close> is
  \<open>s[i]\<close>.  A buffer is NUL-terminated when the list contains a 0.
\<close>

type_synonym byte = "8 word"
type_synonym size_t = "64 word"
type_synonym addr = nat

datatype fault = OutOfBounds

record cstate =
  errno :: int
  heap :: "addr \<Rightarrow> size_t"

definition SIZE_MAX :: size_t where
  "SIZE_MAX = 0xFFFFFFFFFFFFFFFF"

text \<open>\<open>EINVAL\<close> comes from the platform's \<open>errno.h\<close>; 22 is its value on Linux.\<close>

definition EINVAL :: int where
  "EINVAL = 22"

text \<open>The read \<open>s[i]\<close>.\<close>

definition rd :: "byte list \<Rightarrow> size_t \<Rightarrow> fault + byte" where
  "rd s i = (if unat i < length s then Inr (s ! unat i) else Inl OutOfBounds)"

text \<open>Sequencing of fallible steps, and the short-circuit \<open>&&\<close> of C: the right
  operand is evaluated only when the left one is true.\<close>

definition bnd :: "fault + 'a \<Rightarrow> ('a \<Rightarrow> fault + 'b) \<Rightarrow> fault + 'b" where
  "bnd m f = (case m of Inl e \<Rightarrow> Inl e | Inr x \<Rightarrow> f x)"

definition andE :: "fault + bool \<Rightarrow> fault + bool \<Rightarrow> fault + bool" where
  "andE p q = (case p of Inl e \<Rightarrow> Inl e | Inr b \<Rightarrow> if b then q else Inr False)"

section \<open>The macros\<close>

text \<open>\<open>#define is_utf8tail(c) (((c) & 0xC0) == 0x80)\<close>\<close>

definition is_utf8tail :: "byte \<Rightarrow> bool" where
  "is_utf8tail c \<longleftrightarrow> c AND 0xC0 = 0x80"

text \<open>\<open>#define is_utf8firstb(c)\<close>: ASCII or one of the multi-byte lead ranges.\<close>

definition is_utf8firstb :: "byte \<Rightarrow> bool" where
  "is_utf8firstb c \<longleftrightarrow>
     c \<le> 0x7F \<or> (c \<ge> 0xC2 \<and> c \<le> 0xDF) \<or> (c \<ge> 0xE0 \<and> c \<le> 0xEF) \<or> (c \<ge> 0xF0 \<and> c \<le> 0xF4)"

text \<open>The \<open>while\<close> loop of \<open>count_illegal_sequences(max)\<close>, entered with the current
  \<open>len\<close> and \<open>c = s[len]\<close>.\<close>

function count_loop :: "byte list \<Rightarrow> size_t \<Rightarrow> size_t \<Rightarrow> byte \<Rightarrow> fault + size_t" where
  "count_loop s mx len c =
     (if c \<noteq> 0 \<and> len < mx \<and> \<not> is_utf8firstb c
      then (case rd s (len + 1) of
              Inl e \<Rightarrow> Inl e
            | Inr c' \<Rightarrow> count_loop s mx (len + 1) c')
      else Inr len)"
  by pat_completeness auto
termination
proof (relation "measure (\<lambda>(s, mx, len, c). unat mx - unat len)")
  show "wf (measure (\<lambda>(s, mx, len, c). unat mx - unat len))" by simp
next
  fix s :: "byte list" and mx len :: size_t and c x2 :: byte
  assume "c \<noteq> 0 \<and> len < mx \<and> \<not> is_utf8firstb c"
  then have lt: "len < mx" by simp
  then have lt': "unat len < unat mx" by (simp add: word_less_nat_alt)
  have "unat mx < 2 ^ 64" using unsigned_less [of mx] by simp
  with lt' have "Suc (unat len) < 2 ^ 64" by simp
  then have "unat (len + 1) = Suc (unat len)" by (simp add: unat_word_ariths)
  with lt' show "((s, mx, len + 1, x2), (s, mx, len, c))
        \<in> measure (\<lambda>(s, mx, len, c). unat mx - unat len)"
    by simp
qed

declare count_loop.simps [simp del]

text \<open>\<open>count_illegal_sequences(max)\<close>: \<open>len = 1; c = s[len];\<close> the loop;
  \<open>*illlen = len\<close>.\<close>

definition count_illegal_sequences ::
  "byte list \<Rightarrow> size_t \<Rightarrow> addr \<Rightarrow> cstate \<Rightarrow> fault + cstate" where
  "count_illegal_sequences s mx illlen st =
     bnd (rd s 1) (\<lambda>c.
     bnd (count_loop s mx 1 c) (\<lambda>len.
     Inr (st\<lparr>heap := (heap st)(illlen := len)\<rparr>)))"

section \<open>\<open>utf8clen\<close>\<close>

text \<open>The conditions of the branches: \<open>is_utf8tail(s[i])\<close> and
  \<open>s[i] >= lo && s[i] <= hi\<close> (both comparisons read the same \<open>s[i]\<close>).\<close>

definition tail_at :: "byte list \<Rightarrow> size_t \<Rightarrow> fault + bool" where
  "tail_at s i = bnd (rd s i) (\<lambda>b. Inr (is_utf8tail b))"

definition range_at :: "byte list \<Rightarrow> size_t \<Rightarrow> byte \<Rightarrow> byte \<Rightarrow> fault + bool" where
  "range_at s i lo hi = bnd (rd s i) (\<lambda>b. Inr (b \<ge> lo \<and> b \<le> hi))"

text \<open>\<open>count_illegal_sequences(max); return 0;\<close>\<close>

definition illegal :: "byte list \<Rightarrow> size_t \<Rightarrow> addr \<Rightarrow> cstate \<Rightarrow> fault + size_t \<times> cstate" where
  "illegal s mx illlen st =
     bnd (count_illegal_sequences s mx illlen st) (\<lambda>st'. Inr (0, st'))"

text \<open>\<open>if (cond) return n; count_illegal_sequences(max); return 0;\<close>\<close>

definition branch ::
  "fault + bool \<Rightarrow> size_t \<Rightarrow> byte list \<Rightarrow> size_t \<Rightarrow> addr \<Rightarrow> cstate \<Rightarrow> fault + size_t \<times> cstate" where
  "branch cond n s mx illlen st =
     bnd cond (\<lambda>ok. if ok then Inr (n, st) else illegal s mx illlen st)"

definition utf8clen ::
  "byte list option \<Rightarrow> addr option \<Rightarrow> cstate \<Rightarrow> fault + size_t \<times> cstate" where
  "utf8clen sp ip st =
     (case sp of
        None \<Rightarrow> Inr (SIZE_MAX, st\<lparr>errno := EINVAL\<rparr>)
      | Some s \<Rightarrow>
     (case ip of
        None \<Rightarrow> Inr (SIZE_MAX, st\<lparr>errno := EINVAL\<rparr>)
      | Some illlen \<Rightarrow>
        bnd (rd s 0) (\<lambda>c.
        if c \<le> 0x7F then Inr (1, st)
        else if c \<ge> 0xC2 \<and> c \<le> 0xDF then
          branch (tail_at s 1) 2 s 2 illlen st
        else if c = 0xE0 then
          branch (andE (range_at s 1 0xA0 0xBF) (tail_at s 2)) 3 s 3 illlen st
        else if (c \<ge> 0xE1 \<and> c \<le> 0xEC) \<or> (c \<ge> 0xEE \<and> c \<le> 0xEF) then
          branch (andE (tail_at s 1) (tail_at s 2)) 3 s 3 illlen st
        else if c = 0xED then
          branch (andE (range_at s 1 0x80 0x9F) (tail_at s 2)) 3 s 3 illlen st
        else if c = 0xF0 then
          branch (andE (range_at s 1 0x90 0xBF) (andE (tail_at s 2) (tail_at s 3)))
            4 s 4 illlen st
        else if c \<ge> 0xF1 \<and> c \<le> 0xF3 then
          branch (andE (tail_at s 1) (andE (tail_at s 2) (tail_at s 3))) 4 s 4 illlen st
        else if c = 0xF4 then
          branch (andE (range_at s 1 0x80 0x8F) (andE (tail_at s 2) (tail_at s 3)))
            4 s 4 illlen st
        else illegal s SIZE_MAX illlen st)))"

section \<open>Notions used in the statements and proofs\<close>

text \<open>The bound that each branch of \<open>utf8clen\<close> passes to
  \<open>count_illegal_sequences\<close>, by lead byte, in the order of the branches.\<close>

definition cap :: "byte \<Rightarrow> size_t" where
  "cap c =
     (if c \<ge> 0xC2 \<and> c \<le> 0xDF then 2
      else if c = 0xE0 then 3
      else if (c \<ge> 0xE1 \<and> c \<le> 0xEC) \<or> (c \<ge> 0xEE \<and> c \<le> 0xEF) then 3
      else if c = 0xED then 3
      else if c = 0xF0 then 4
      else if c \<ge> 0xF1 \<and> c \<le> 0xF3 then 4
      else if c = 0xF4 then 4
      else SIZE_MAX)"

text \<open>\<open>run_ok s mx len k\<close>: the loop entered at \<open>len\<close> with bound \<open>mx\<close> may stop at
  \<open>k\<close>: every byte it stepped over is neither NUL nor a first byte, and at \<open>k\<close> it
  met the terminator, a first byte, or the bound.\<close>

definition run_ok :: "byte list \<Rightarrow> size_t \<Rightarrow> size_t \<Rightarrow> size_t \<Rightarrow> bool" where
  "run_ok s mx len k \<longleftrightarrow>
     len \<le> k \<and> k \<le> mx \<and> unat k < length s \<and>
     (\<forall>i\<in>{unat len..<unat k}. s ! i \<noteq> 0 \<and> \<not> is_utf8firstb (s ! i)) \<and>
     (s ! unat k = 0 \<or> is_utf8firstb (s ! unat k) \<or> k = mx)"

text \<open>\<open>good s mx f\<close>: the computation \<open>f\<close> (a function of the output address and the
  state) either returns a length from 1 to 4 and leaves the state alone, or returns 0
  and stores a run length \<open>k\<close> with \<open>run_ok s mx 1 k\<close> at the output address; the
  length and the run do not depend on the state.\<close>

definition good ::
  "byte list \<Rightarrow> size_t \<Rightarrow> (addr \<Rightarrow> cstate \<Rightarrow> fault + size_t \<times> cstate) \<Rightarrow> bool" where
  "good s mx f \<longleftrightarrow>
     (\<exists>n\<in>{1, 2, 3, 4}. \<forall>a st. f a st = Inr (n, st)) \<or>
     (\<exists>k. run_ok s mx 1 k \<and> (\<forall>a st. f a st = Inr (0, st\<lparr>heap := (heap st)(a := k)\<rparr>)))"

text \<open>A state to run examples in: \<open>errno\<close> is 0 and every cell holds 0.\<close>

definition st0 :: cstate where
  "st0 = \<lparr>errno = 0, heap = (\<lambda>_. 0)\<rparr>"

text \<open>\<open>ext_stable f\<close>: a result that \<open>f\<close> returns on a buffer is the result it
  returns on every extension of that buffer.  A computation that is stable in this sense
  and returns on a buffer that ends at its first NUL does not depend on anything after
  that NUL.\<close>

definition ext_stable :: "(byte list \<Rightarrow> fault + 'a) \<Rightarrow> bool" where
  "ext_stable f \<longleftrightarrow> (\<forall>s e r. f s = Inr r \<longrightarrow> f (s @ e) = Inr r)"

text \<open>The reference encoder of the round-trip claim.  It is not code of the repository:
  it is the bit distribution of the Unicode Standard (chapter 3, Table 3-6, next to the
  Table 3-7 that the source cites), with \<open>cp div 2 ^ n\<close> for the shift \<open>cp >> n\<close> and
  \<open>cp mod 0x40\<close> for the mask \<open>cp & 0x3F\<close>.\<close>

definition utf8_encode_ref :: "nat \<Rightarrow> byte list" where
  "utf8_encode_ref cp =
     (if cp < 0x80 then [of_nat cp]
      else if cp < 0x800 then
        [of_nat (0xC0 + cp div 0x40), of_nat (0x80 + cp mod 0x40)]
      else if cp < 0x10000 then
        [of_nat (0xE0 + cp div 0x1000), of_nat (0x80 + cp div 0x40 mod 0x40),
         of_nat (0x80 + cp mod 0x40)]
      else
        [of_nat (0xF0 + cp div 0x40000), of_nat (0x80 + cp div 0x1000 mod 0x40),
         of_nat (0x80 + cp div 0x40 mod 0x40), of_nat (0x80 + cp mod 0x40)])"

text \<open>\<open>test_case\<close> of \<open>test/test_utf8clen.c\<close>: \<open>size_t illlen = 0;
  len = utf8clen(input, &illlen);\<close> and the pair that the test compares with the
  expected one.\<close>

definition test_case :: "byte list \<Rightarrow> fault + size_t \<times> size_t" where
  "test_case input = bnd (utf8clen (Some input) (Some 0) st0) (\<lambda>(len, st). Inr (len, heap st 0))"

section \<open>Bytes and reads\<close>

lemma byte_cases: "list_all (\<lambda>n. P (of_nat n :: byte)) [0..<256] \<Longrightarrow> P c"
proof -
  assume a: "list_all (\<lambda>n. P (of_nat n :: byte)) [0..<256]"
  have "unat c < 256" using unsigned_less [of c] by simp
  then have "unat c \<in> set [0..<256]" by simp
  with a have "P (of_nat (unat c))" unfolding list_all_iff by (rule bspec)
  then show ?thesis by simp
qed

lemma and_C0: "c AND 0xC0 = 0x80 \<longleftrightarrow> 0x80 \<le> c \<and> c \<le> (0xBF::byte)"
  apply (rule byte_cases [of _ c])
  apply code_simp
  done

lemma size_t_Suc: "(len::size_t) < mx \<Longrightarrow> unat (len + 1) = Suc (unat len)"
proof -
  assume "len < mx"
  then have lt': "unat len < unat mx" by (simp add: word_less_nat_alt)
  have "unat mx < 2 ^ 64" using unsigned_less [of mx] by simp
  with lt' have "Suc (unat len) < 2 ^ 64" by simp
  then show "unat (len + 1) = Suc (unat len)" by (simp add: unat_word_ariths)
qed

lemma nul_len: "0 \<in> set s \<Longrightarrow> \<forall>i<n. s ! i \<noteq> (0::byte) \<Longrightarrow> n < length s"
proof -
  assume a: "0 \<in> set s" and b: "\<forall>i<n. s ! i \<noteq> (0::byte)"
  from a obtain j where j: "j < length s" "s ! j = 0" by (auto simp: in_set_conv_nth)
  with b have "\<not> j < n" by auto
  with j show ?thesis by simp
qed

lemma count_loop_run:
  "0 \<in> set s \<Longrightarrow> \<forall>i<unat len. s ! i \<noteq> 0 \<Longrightarrow> len \<le> mx \<Longrightarrow> c = s ! unat len \<Longrightarrow>
   \<exists>k. count_loop s mx len c = Inr k \<and> run_ok s mx len k"
proof (induction s mx len c rule: count_loop.induct)
  case (1 s mx len c)
  have inb: "unat len < length s" using 1(2,3) by (rule nul_len)
  show ?case
  proof (cases "c \<noteq> 0 \<and> len < mx \<and> \<not> is_utf8firstb c")
    case False
    then have "count_loop s mx len c = Inr len" by (subst count_loop.simps) auto
    moreover have "run_ok s mx len len"
      using False 1(4,5) inb by (auto simp: run_ok_def)
    ultimately show ?thesis by blast
  next
    case True
    then have lt: "len < mx" by simp
    then have suc: "unat (len + 1) = Suc (unat len)" by (rule size_t_Suc)
    have nz: "\<forall>i<unat (len + 1). s ! i \<noteq> 0"
      using 1(3,5) True suc by (auto simp: less_Suc_eq)
    have inb': "unat (len + 1) < length s" using 1(2) nz by (rule nul_len)
    then have r: "rd s (len + 1) = Inr (s ! unat (len + 1))" by (simp add: rd_def)
    have le: "len + 1 \<le> mx" using True suc by (simp add: word_le_nat_alt word_less_nat_alt)
    from 1(1) [OF True r 1(2) nz le refl]
    obtain k where k: "count_loop s mx (len + 1) (s ! unat (len + 1)) = Inr k"
      and ok: "run_ok s mx (len + 1) k" by blast
    have "count_loop s mx len c = Inr k"
      using True r k by (subst count_loop.simps) simp
    moreover have "run_ok s mx len k"
    proof -
      have a: "i \<in> {unat len..<unat k} \<longrightarrow> s ! i \<noteq> 0 \<and> \<not> is_utf8firstb (s ! i)" for i
      proof (cases "i = unat len")
        case True
        with \<open>c \<noteq> 0 \<and> len < mx \<and> \<not> is_utf8firstb c\<close> 1(5) show ?thesis by simp
      next
        case False
        with ok suc show ?thesis by (simp add: run_ok_def)
      qed
      have "len \<le> k" using ok suc by (simp add: run_ok_def word_le_nat_alt)
      with a ok show ?thesis by (simp add: run_ok_def)
    qed
    ultimately show ?thesis by blast
  qed
qed

lemma rd_nul:
  "0 \<in> set s \<Longrightarrow> \<forall>i<n. s ! i \<noteq> 0 \<Longrightarrow> unat w = n \<Longrightarrow> rd s w = Inr (s ! n)"
  using nul_len [of s n] by (auto simp: rd_def)

lemma tail_nz: "is_utf8tail c \<Longrightarrow> c \<noteq> 0"
  by (auto simp: is_utf8tail_def)

lemma illegal_run:
  assumes "0 \<in> set s" "s ! 0 \<noteq> 0" "1 \<le> mx"
  shows "\<exists>k. run_ok s mx 1 k \<and>
    (\<forall>a st. illegal s mx a st = Inr (0, st\<lparr>heap := (heap st)(a := k)\<rparr>))"
proof -
  have nz: "\<forall>i<unat (1::size_t). s ! i \<noteq> 0" using assms(2) by simp
  have r: "rd s 1 = Inr (s ! unat (1::size_t))" using assms(1) nz refl by (rule rd_nul)
  from count_loop_run [OF assms(1) nz assms(3) refl]
  obtain k where k: "count_loop s mx 1 (s ! unat (1::size_t)) = Inr k" and ok: "run_ok s mx 1 k"
    by blast
  have "\<forall>a st. illegal s mx a st = Inr (0, st\<lparr>heap := (heap st)(a := k)\<rparr>)"
    using r k by (simp add: illegal_def count_illegal_sequences_def bnd_def)
  with ok show ?thesis by blast
qed

lemma good_illegal:
  assumes "0 \<in> set s" "s ! 0 \<noteq> 0" "1 \<le> mx"
  shows "good s mx (illegal s mx)"
  using illegal_run [OF assms] unfolding good_def by blast

lemma good_branch:
  assumes "cond = Inr b" "n \<in> {1, 2, 3, 4}" "good s mx (illegal s mx)"
  shows "good s mx (branch cond n s mx)"
proof (cases b)
  case True
  with assms(1) have "\<forall>a st. branch cond n s mx a st = Inr (n, st)"
    by (simp add: branch_def bnd_def)
  with assms(2) show ?thesis unfolding good_def by blast
next
  case False
  with assms(1) have "branch cond n s mx = illegal s mx"
    by (simp add: branch_def bnd_def fun_eq_iff)
  with assms(3) show ?thesis by simp
qed

lemma rd1:
  assumes "0 \<in> set s" "s ! 0 \<noteq> 0"
  shows "rd s 1 = Inr (s ! 1)"
proof -
  have "\<forall>i<1. s ! i \<noteq> 0" using assms(2) by simp
  with assms(1) show ?thesis by (rule rd_nul) simp
qed

lemma rd2:
  assumes "0 \<in> set s" "s ! 0 \<noteq> 0" "s ! 1 \<noteq> 0"
  shows "rd s 2 = Inr (s ! 2)"
proof -
  have "\<forall>i<2. s ! i \<noteq> 0" using assms(2,3) by (auto simp: less_2_cases_iff)
  with assms(1) show ?thesis by (rule rd_nul) simp
qed

lemma rd3:
  assumes "0 \<in> set s" "s ! 0 \<noteq> 0" "s ! 1 \<noteq> 0" "s ! 2 \<noteq> 0"
  shows "rd s 3 = Inr (s ! 3)"
proof -
  have "i < 3 \<longrightarrow> s ! i \<noteq> 0" for i
  proof
    assume "i < 3"
    then have "i = 0 \<or> i = 1 \<or> i = 2" by arith
    with assms(2,3,4) show "s ! i \<noteq> 0" by auto
  qed
  then have "\<forall>i<3. s ! i \<noteq> 0" by blast
  with assms(1) show ?thesis by (rule rd_nul) simp
qed

lemma bnd_Inr: "bnd (Inr x) f = f x"
  by (simp add: bnd_def)

lemma andE_Inr: "andE (Inr b) q = (if b then q else Inr False)"
  by (simp add: andE_def)

lemma tail1:
  assumes "0 \<in> set s" "s ! 0 \<noteq> 0"
  shows "tail_at s 1 = Inr (is_utf8tail (s ! 1))"
  unfolding tail_at_def rd1 [OF assms] bnd_Inr ..

lemma range1:
  assumes "0 \<in> set s" "s ! 0 \<noteq> 0"
  shows "range_at s 1 lo hi = Inr (lo \<le> s ! 1 \<and> s ! 1 \<le> hi)"
  unfolding range_at_def rd1 [OF assms] bnd_Inr ..

lemma tail2:
  assumes "0 \<in> set s" "s ! 0 \<noteq> 0" "s ! 1 \<noteq> 0"
  shows "tail_at s 2 = Inr (is_utf8tail (s ! 2))"
  unfolding tail_at_def rd2 [OF assms] bnd_Inr ..

lemma tail3:
  assumes "0 \<in> set s" "s ! 0 \<noteq> 0" "s ! 1 \<noteq> 0" "s ! 2 \<noteq> 0"
  shows "tail_at s 3 = Inr (is_utf8tail (s ! 3))"
  unfolding tail_at_def rd3 [OF assms] bnd_Inr ..

lemma and_tail23:
  assumes "0 \<in> set s" "s ! 0 \<noteq> 0" "s ! 1 \<noteq> 0"
  shows "andE (tail_at s 2) (tail_at s 3) = Inr (is_utf8tail (s ! 2) \<and> is_utf8tail (s ! 3))"
proof (cases "is_utf8tail (s ! 2)")
  case True
  then have "s ! 2 \<noteq> 0" by (rule tail_nz)
  with assms have "tail_at s 3 = Inr (is_utf8tail (s ! 3))" by (rule tail3)
  with True show ?thesis unfolding tail2 [OF assms] andE_Inr by simp
next
  case False
  then show ?thesis unfolding tail2 [OF assms] andE_Inr by simp
qed

lemma and_tail2:
  assumes "0 \<in> set s" "s ! 0 \<noteq> 0"
  shows "andE (tail_at s 1) (tail_at s 2) = Inr (is_utf8tail (s ! 1) \<and> is_utf8tail (s ! 2))"
proof (cases "is_utf8tail (s ! 1)")
  case True
  then have "s ! 1 \<noteq> 0" by (rule tail_nz)
  with assms have "tail_at s 2 = Inr (is_utf8tail (s ! 2))" by (rule tail2)
  with True show ?thesis unfolding tail1 [OF assms] andE_Inr by simp
next
  case False
  then show ?thesis unfolding tail1 [OF assms] andE_Inr by simp
qed

lemma and_tail3:
  assumes "0 \<in> set s" "s ! 0 \<noteq> 0"
  shows "andE (tail_at s 1) (andE (tail_at s 2) (tail_at s 3)) =
         Inr (is_utf8tail (s ! 1) \<and> is_utf8tail (s ! 2) \<and> is_utf8tail (s ! 3))"
proof (cases "is_utf8tail (s ! 1)")
  case True
  then have "s ! 1 \<noteq> 0" by (rule tail_nz)
  with assms have "andE (tail_at s 2) (tail_at s 3) =
      Inr (is_utf8tail (s ! 2) \<and> is_utf8tail (s ! 3))" by (rule and_tail23)
  with True show ?thesis unfolding tail1 [OF assms] andE_Inr by simp
next
  case False
  then show ?thesis unfolding tail1 [OF assms] andE_Inr by simp
qed

lemma and_range2:
  assumes "0 \<in> set s" "s ! 0 \<noteq> 0" "lo \<noteq> 0"
  shows "andE (range_at s 1 lo hi) (tail_at s 2) =
         Inr ((lo \<le> s ! 1 \<and> s ! 1 \<le> hi) \<and> is_utf8tail (s ! 2))"
proof -
  define b where "b \<longleftrightarrow> lo \<le> s ! 1 \<and> s ! 1 \<le> hi"
  have r: "range_at s 1 lo hi = Inr b" unfolding b_def using assms(1,2) by (rule range1)
  show ?thesis
  proof (cases b)
    case True
    with assms(3) have "s ! 1 \<noteq> 0" unfolding b_def by auto
    with assms(1,2) have "tail_at s 2 = Inr (is_utf8tail (s ! 2))" by (rule tail2)
    with True show ?thesis unfolding r andE_Inr b_def [symmetric] by simp
  next
    case False
    then show ?thesis unfolding r andE_Inr b_def [symmetric] by simp
  qed
qed

lemma and_range3:
  assumes "0 \<in> set s" "s ! 0 \<noteq> 0" "lo \<noteq> 0"
  shows "andE (range_at s 1 lo hi) (andE (tail_at s 2) (tail_at s 3)) =
         Inr ((lo \<le> s ! 1 \<and> s ! 1 \<le> hi) \<and> is_utf8tail (s ! 2) \<and> is_utf8tail (s ! 3))"
proof -
  define b where "b \<longleftrightarrow> lo \<le> s ! 1 \<and> s ! 1 \<le> hi"
  have r: "range_at s 1 lo hi = Inr b" unfolding b_def using assms(1,2) by (rule range1)
  show ?thesis
  proof (cases b)
    case True
    with assms(3) have "s ! 1 \<noteq> 0" unfolding b_def by auto
    with assms(1,2) have "andE (tail_at s 2) (tail_at s 3) =
      Inr (is_utf8tail (s ! 2) \<and> is_utf8tail (s ! 3))" by (rule and_tail23)
    with True show ?thesis unfolding r andE_Inr b_def [symmetric] by simp
  next
    case False
    then show ?thesis unfolding r andE_Inr b_def [symmetric] by simp
  qed
qed


lemma utf8clen_chain:
  assumes "0 \<in> set s" and False: "\<not> s ! 0 \<le> 0x7F"
  shows "(\<lambda>a st. utf8clen (Some s) (Some a) st) =
    (if s ! 0 \<ge> 0xC2 \<and> s ! 0 \<le> 0xDF then branch (tail_at s 1) 2 s 2
     else if s ! 0 = 0xE0 then branch (andE (range_at s 1 0xA0 0xBF) (tail_at s 2)) 3 s 3
     else if (s ! 0 \<ge> 0xE1 \<and> s ! 0 \<le> 0xEC) \<or> (s ! 0 \<ge> 0xEE \<and> s ! 0 \<le> 0xEF) then
       branch (andE (tail_at s 1) (tail_at s 2)) 3 s 3
     else if s ! 0 = 0xED then branch (andE (range_at s 1 0x80 0x9F) (tail_at s 2)) 3 s 3
     else if s ! 0 = 0xF0 then
       branch (andE (range_at s 1 0x90 0xBF) (andE (tail_at s 2) (tail_at s 3))) 4 s 4
     else if s ! 0 \<ge> 0xF1 \<and> s ! 0 \<le> 0xF3 then
       branch (andE (tail_at s 1) (andE (tail_at s 2) (tail_at s 3))) 4 s 4
     else if s ! 0 = 0xF4 then
       branch (andE (range_at s 1 0x80 0x8F) (andE (tail_at s 2) (tail_at s 3))) 4 s 4
     else illegal s SIZE_MAX)"
proof -
  have r0: "rd s 0 = Inr (s ! 0)" using assms by (cases s) (simp_all add: rd_def)
  show ?thesis
    apply (rule ext)
    apply (rule ext)
    apply (simp only: utf8clen_def option.case r0 bnd_Inr False if_False)
    apply (simp only: if_distrib [of "\<lambda>f. f a st" for a st] cong: if_cong)
    done
qed

lemma good_utf8clen:
  assumes "0 \<in> set s"
  shows "good s (cap (s ! 0)) (\<lambda>a st. utf8clen (Some s) (Some a) st)"
proof (cases "s ! 0 \<le> 0x7F")
  case True
  have "rd s 0 = Inr (s ! 0)" using assms by (cases s) (simp_all add: rd_def)
  with True have "\<forall>a st. utf8clen (Some s) (Some a) st = Inr (1, st)"
    by (simp add: utf8clen_def bnd_def)
  then show ?thesis unfolding good_def by blast
next
  case False
  then have nz: "s ! 0 \<noteq> 0" by auto
  note ill = good_illegal [OF assms nz]
  note br = good_branch [OF _ _ ill]
  have g2: "good s 2 (branch (tail_at s 1) 2 s 2)"
    by (rule br [OF tail1 [OF assms nz]]) simp_all
  have g3r: "good s 3 (branch (andE (range_at s 1 lo hi) (tail_at s 2)) 3 s 3)"
    if "lo \<noteq> 0" for lo hi
    by (rule br [OF and_range2 [OF assms nz that]]) simp_all
  have g3t: "good s 3 (branch (andE (tail_at s 1) (tail_at s 2)) 3 s 3)"
    by (rule br [OF and_tail2 [OF assms nz]]) simp_all
  have g4r: "good s 4 (branch (andE (range_at s 1 lo hi) (andE (tail_at s 2) (tail_at s 3))) 4 s 4)"
    if "lo \<noteq> 0" for lo hi
    by (rule br [OF and_range3 [OF assms nz that]]) simp_all
  have g4t: "good s 4 (branch (andE (tail_at s 1) (andE (tail_at s 2) (tail_at s 3))) 4 s 4)"
    by (rule br [OF and_tail3 [OF assms nz]]) simp_all
  have gi: "good s SIZE_MAX (illegal s SIZE_MAX)"
    by (rule ill) (simp add: SIZE_MAX_def)
  show ?thesis
    unfolding utf8clen_chain [OF assms False] cap_def
    by (simp add: g2 g3r g3t g4r g4t gi)
qed

lemma cap_ranges:
  "cap c = (if 0xC2 \<le> c \<and> c \<le> 0xDF then 2 else if 0xE0 \<le> c \<and> c \<le> 0xEF then 3
            else if 0xF0 \<le> c \<and> c \<le> 0xF4 then 4 else SIZE_MAX)"
  apply (rule byte_cases [of _ c])
  apply code_simp
  done

lemma tail_not_first: "is_utf8tail c \<longrightarrow> \<not> is_utf8firstb c"
  apply (rule byte_cases [of _ c])
  apply code_simp
  done

lemma tail_iff: "is_utf8tail c \<longleftrightarrow> 0x80 \<le> c \<and> c \<le> 0xBF"
  unfolding is_utf8tail_def by (rule and_C0)

lemma rd_0: "rd (b0 # rest) 0 = Inr b0"
  by (simp add: rd_def)

lemma rd_1: "rd (b0 # b1 # rest) 1 = Inr b1"
  by (simp add: rd_def)

lemma rd_2: "rd (b0 # b1 # b2 # rest) 2 = Inr b2"
  by (simp add: rd_def)

lemma rd_3: "rd (b0 # b1 # b2 # b3 # rest) 3 = Inr b3"
  by (simp add: rd_def)

lemma count_loop_stop:
  "c = 0 \<or> \<not> len < mx \<or> is_utf8firstb c \<Longrightarrow> count_loop s mx len c = Inr len"
  by (subst count_loop.simps) auto

lemma count_loop_step:
  "c \<noteq> 0 \<Longrightarrow> len < mx \<Longrightarrow> \<not> is_utf8firstb c \<Longrightarrow> rd s (len + 1) = Inr c' \<Longrightarrow>
   count_loop s mx len c = count_loop s mx (len + 1) c'"
  by (subst count_loop.simps) simp

lemma valid1: "b0 \<le> 0x7F \<Longrightarrow> utf8clen (Some (b0 # rest)) (Some a) st = Inr (1, st)"
  by (simp add: utf8clen_def rd_0 bnd_Inr)

lemma valid2:
  "0xC2 \<le> b0 \<Longrightarrow> b0 \<le> 0xDF \<Longrightarrow> is_utf8tail b1 \<Longrightarrow>
   utf8clen (Some (b0 # b1 # rest)) (Some a) st = Inr (2, st)"
  by (simp add: utf8clen_def rd_0 rd_1 bnd_Inr branch_def tail_at_def word_le_nat_alt)

lemma valid3:
  assumes "b0 = 0xE0 \<and> 0xA0 \<le> b1 \<and> b1 \<le> 0xBF \<or>
           (0xE1 \<le> b0 \<and> b0 \<le> 0xEC \<or> 0xEE \<le> b0 \<and> b0 \<le> 0xEF) \<and> is_utf8tail b1 \<or>
           b0 = 0xED \<and> 0x80 \<le> b1 \<and> b1 \<le> 0x9F"
    and "is_utf8tail b2"
  shows "utf8clen (Some (b0 # b1 # b2 # rest)) (Some a) st = Inr (3, st)"
  using assms
  by (auto simp add: utf8clen_def rd_0 rd_1 rd_2 bnd_Inr andE_Inr branch_def tail_at_def
      range_at_def word_le_nat_alt)

lemma valid4:
  assumes "b0 = 0xF0 \<and> 0x90 \<le> b1 \<and> b1 \<le> 0xBF \<or>
           (0xF1 \<le> b0 \<and> b0 \<le> 0xF3) \<and> is_utf8tail b1 \<or>
           b0 = 0xF4 \<and> 0x80 \<le> b1 \<and> b1 \<le> 0x8F"
    and "is_utf8tail b2" and "is_utf8tail b3"
  shows "utf8clen (Some (b0 # b1 # b2 # b3 # rest)) (Some a) st = Inr (4, st)"
  using assms
  by (auto simp add: utf8clen_def rd_0 rd_1 rd_2 rd_3 bnd_Inr andE_Inr branch_def tail_at_def
      range_at_def word_le_nat_alt)

lemma trunc1:
  assumes "0xC2 \<le> b0 \<and> b0 \<le> 0xDF \<or> 0xE0 \<le> b0 \<and> b0 \<le> 0xEF \<or> 0xF0 \<le> b0 \<and> b0 \<le> 0xF4"
  shows "utf8clen (Some (b0 # 0 # rest)) (Some a) st = Inr (0, st\<lparr>heap := (heap st)(a := 1)\<rparr>)"
  using assms
  by (auto simp add: utf8clen_def rd_0 rd_1 bnd_Inr andE_Inr branch_def tail_at_def
      range_at_def word_le_nat_alt is_utf8tail_def illegal_def count_illegal_sequences_def
      count_loop_stop)

lemma surrogate3:
  assumes "0xA0 \<le> b1" "b1 \<le> 0xBF" "0x80 \<le> b2" "b2 \<le> 0xBF"
  shows "utf8clen (Some (0xED # b1 # b2 # t # rest)) (Some a) st =
         Inr (0, st\<lparr>heap := (heap st)(a := 3)\<rparr>)"
proof -
  let ?s = "0xED # b1 # b2 # t # rest"
  have t1: "is_utf8tail b1" and t2: "is_utf8tail b2" using assms by (simp_all add: tail_iff word_le_nat_alt)
  have n1: "b1 \<noteq> 0" "\<not> is_utf8firstb b1" using t1 tail_nz tail_not_first by blast+
  have n2: "b2 \<noteq> 0" "\<not> is_utf8firstb b2" using t2 tail_nz tail_not_first by blast+
  have cl: "count_loop ?s 3 1 b1 = Inr 3"
    apply (subst count_loop.simps, simp add: n1 rd_def)
    apply (subst count_loop.simps, simp add: n2 rd_def)
    apply (subst count_loop.simps, simp)
    done
  have "\<not> b1 \<le> 0x9F" using assms(1) by (simp add: word_le_nat_alt)
  then show ?thesis
    by (simp add: utf8clen_def rd_0 rd_1 bnd_Inr andE_Inr branch_def
      range_at_def illegal_def count_illegal_sequences_def cl)
qed


section \<open>Stability under extension of the buffer\<close>

lemma ext_const: "ext_stable (\<lambda>s. m)"
  by (simp add: ext_stable_def)

lemma ext_rd: "ext_stable (\<lambda>s. rd s i)"
  by (auto simp: ext_stable_def rd_def nth_append split: if_splits)

lemma ext_bnd:
  assumes "ext_stable f" "\<And>x. ext_stable (g x)"
  shows "ext_stable (\<lambda>s. bnd (f s) (\<lambda>x. g x s))"
  unfolding ext_stable_def
proof (intro allI impI)
  fix s e r
  assume a: "bnd (f s) (\<lambda>x. g x s) = Inr r"
  then obtain x where x: "f s = Inr x" by (cases "f s") (simp_all add: bnd_def)
  with a have "g x s = Inr r" by (simp add: bnd_def)
  with assms(2) have "g x (s @ e) = Inr r" by (simp add: ext_stable_def)
  moreover from x assms(1) have "f (s @ e) = Inr x" by (simp add: ext_stable_def)
  ultimately show "bnd (f (s @ e)) (\<lambda>x. g x (s @ e)) = Inr r" by (simp add: bnd_def)
qed

lemma ext_andE:
  assumes "ext_stable p" "ext_stable q"
  shows "ext_stable (\<lambda>s. andE (p s) (q s))"
  unfolding ext_stable_def
proof (intro allI impI)
  fix s e r
  assume a: "andE (p s) (q s) = Inr r"
  then obtain b where b: "p s = Inr b" by (cases "p s") (simp_all add: andE_def)
  from b assms(1) have b': "p (s @ e) = Inr b" by (simp add: ext_stable_def)
  show "andE (p (s @ e)) (q (s @ e)) = Inr r"
  proof (cases b)
    case True
    with a b have "q s = Inr r" by (simp add: andE_def)
    with assms(2) have "q (s @ e) = Inr r" by (simp add: ext_stable_def)
    with True b' show ?thesis by (simp add: andE_def)
  next
    case False
    with a b b' show ?thesis by (simp add: andE_def)
  qed
qed

lemma ext_if:
  assumes "ext_stable f" "ext_stable g"
  shows "ext_stable (\<lambda>s. if b then f s else g s)"
  using assms by (simp add: ext_stable_def)

lemma count_loop_append:
  "count_loop s mx len c = Inr k \<Longrightarrow> count_loop (s @ e) mx len c = Inr k"
proof (induction s mx len c rule: count_loop.induct)
  case (1 s mx len c)
  show ?case
  proof (cases "c \<noteq> 0 \<and> len < mx \<and> \<not> is_utf8firstb c")
    case False
    then have "count_loop s mx len c = Inr len" "count_loop (s @ e) mx len c = Inr len"
      by (simp_all add: count_loop_stop)
    with 1(2) show ?thesis by simp
  next
    case True
    from 1(2) True obtain c' where c': "rd s (len + 1) = Inr c'"
      by (subst (asm) count_loop.simps) (auto split: sum.splits)
    with True have "count_loop s mx len c = count_loop s mx (len + 1) c'"
      by (simp add: count_loop_step)
    with 1(2) have "count_loop s mx (len + 1) c' = Inr k" by simp
    with 1(1) [OF True c'] have "count_loop (s @ e) mx (len + 1) c' = Inr k" .
    moreover from c' have "rd (s @ e) (len + 1) = Inr c'"
      using ext_rd [of "len + 1"] by (simp add: ext_stable_def)
    ultimately show ?thesis using True by (simp add: count_loop_step)
  qed
qed

lemma ext_count_loop: "ext_stable (\<lambda>s. count_loop s mx len c)"
  by (simp add: ext_stable_def count_loop_append)

lemma ext_utf8clen: "ext_stable (\<lambda>s. utf8clen (Some s) (Some a) st)"
  unfolding utf8clen_def option.case branch_def illegal_def count_illegal_sequences_def
    tail_at_def range_at_def
  by (intro ext_bnd ext_if ext_andE ext_rd ext_const ext_count_loop)

lemma utf8clen_append:
  "utf8clen (Some s) (Some a) st = Inr r \<Longrightarrow> utf8clen (Some (s @ e)) (Some a) st = Inr r"
  using ext_utf8clen [of a st] unfolding ext_stable_def by blast

lemma run_ok_ge1: "run_ok s mx 1 k \<Longrightarrow> 1 \<le> unat k"
  by (simp add: run_ok_def word_le_nat_alt)

lemma run_covers:
  assumes "run_ok s mx 1 k" "\<forall>i\<in>{1..<n}. s ! i \<noteq> 0 \<and> \<not> is_utf8firstb (s ! i)" "n \<le> unat mx"
  shows "n \<le> unat k"
proof (rule ccontr)
  assume "\<not> n \<le> unat k"
  then have lt: "unat k < n" by simp
  with run_ok_ge1 [OF assms(1)] have "unat k \<in> {1..<n}" by simp
  with assms(2) have "s ! unat k \<noteq> 0 \<and> \<not> is_utf8firstb (s ! unat k)" by blast
  with assms(1) have "k = mx" by (simp add: run_ok_def)
  with lt assms(3) show False by simp
qed

lemma good_cases:
  assumes "good s mx f"
  obtains (valid) n where "n \<in> {1, 2, 3, 4}" "\<forall>a st. f a st = Inr (n, st)"
  | (invalid) k where "run_ok s mx 1 k"
      "\<forall>a st. f a st = Inr (0, st\<lparr>heap := (heap st)(a := k)\<rparr>)"
  using assms unfolding good_def by blast

lemma utf8clen_invalid_run:
  assumes "0 \<in> set s" "utf8clen (Some s) (Some a) st = Inr (0, st')"
  shows "\<exists>k. run_ok s (cap (s ! 0)) 1 k \<and> st' = st\<lparr>heap := (heap st)(a := k)\<rparr> \<and>
    (\<forall>a st. utf8clen (Some s) (Some a) st = Inr (0, st\<lparr>heap := (heap st)(a := k)\<rparr>))"
  using good_utf8clen [OF assms(1)]
proof (cases rule: good_cases)
  case (valid n)
  with assms(2) have "n = 0" by simp
  with valid(1) show ?thesis by simp
next
  case (invalid k)
  with assms(2) have "st' = st\<lparr>heap := (heap st)(a := k)\<rparr>" by simp
  with invalid show ?thesis by blast
qed

lemma invalid_lead_chain:
  assumes "0xF5 \<le> b0 \<or> (0x80 \<le> b0 \<and> b0 \<le> 0xC1)"
  shows "utf8clen (Some (b0 # rest)) (Some a) st = illegal (b0 # rest) SIZE_MAX a st"
  using assms
  by (auto simp add: utf8clen_def rd_0 bnd_Inr word_le_nat_alt)

lemma overlong_E0_chain:
  "0x80 \<le> b1 \<Longrightarrow> b1 \<le> 0x9F \<Longrightarrow>
   utf8clen (Some (0xE0 # b1 # rest)) (Some a) st = illegal (0xE0 # b1 # rest) 3 a st"
  by (simp add: utf8clen_def rd_0 rd_1 bnd_Inr andE_Inr branch_def range_at_def word_le_nat_alt)

lemma overlong_F0_chain:
  "0x80 \<le> b1 \<Longrightarrow> b1 \<le> 0x8F \<Longrightarrow>
   utf8clen (Some (0xF0 # b1 # rest)) (Some a) st = illegal (0xF0 # b1 # rest) 4 a st"
  by (simp add: utf8clen_def rd_0 rd_1 bnd_Inr andE_Inr branch_def range_at_def word_le_nat_alt)

lemma illegal_covers:
  assumes "0 \<in> set s" "s ! 0 \<noteq> 0" "\<forall>i\<in>{1..<n}. is_utf8tail (s ! i)" "1 \<le> mx" "n \<le> unat mx"
  shows "\<exists>k. illegal s mx a st = Inr (0, st\<lparr>heap := (heap st)(a := k)\<rparr>) \<and> n \<le> unat k"
proof -
  from illegal_run [OF assms(1,2,4)]
  obtain k where ok: "run_ok s mx 1 k"
    and ill: "illegal s mx a st = Inr (0, st\<lparr>heap := (heap st)(a := k)\<rparr>)" by blast
  have "\<forall>i\<in>{1..<n}. s ! i \<noteq> 0 \<and> \<not> is_utf8firstb (s ! i)"
    using assms(3) tail_nz tail_not_first by blast
  with ok have "n \<le> unat k" using assms(5) by (rule run_covers)
  with ill show ?thesis by blast
qed

lemma tail_range: "0x80 \<le> c \<Longrightarrow> c \<le> 0xBF \<Longrightarrow> is_utf8tail c"
  by (simp add: tail_iff)

section \<open>The reference encoder\<close>

lemma utf8_encode_ref_examples:
  "utf8_encode_ref 0x41 = [0x41]"
  "utf8_encode_ref 0xA9 = [0xC2, 0xA9]"
  "utf8_encode_ref 0x20AC = [0xE2, 0x82, 0xAC]"
  "utf8_encode_ref 0xD7FF = [0xED, 0x9F, 0xBF]"
  "utf8_encode_ref 0x1F602 = [0xF0, 0x9F, 0x98, 0x82]"
  "utf8_encode_ref 0x10FFFF = [0xF4, 0x8F, 0xBF, 0xBF]"
  by (simp_all add: utf8_encode_ref_def)

lemma unat_byte: "n < 256 \<Longrightarrow> unat (of_nat n :: byte) = n"
  by (simp add: unat_of_nat)

lemma byte_eq_iff: "(b = c) = (unat b = unat (c :: byte))"
  by (simp add: word_unat_eq_iff)

lemma tail_unat: "is_utf8tail c \<longleftrightarrow> 128 \<le> unat c \<and> unat c \<le> 191"
  by (simp add: tail_iff word_le_nat_alt)

lemma enc1:
  assumes "unat b0 < 128"
  shows "utf8clen (Some (b0 # rest)) (Some a) st = Inr (1, st)"
  using assms by (intro valid1) (simp add: word_le_nat_alt)

lemma enc2:
  assumes "unat b0 = 192 + d" "2 \<le> d" "d < 32" "unat b1 = 128 + f" "f < 64"
  shows "utf8clen (Some (b0 # b1 # rest)) (Some a) st = Inr (2, st)"
  using assms by (intro valid2) (simp_all add: word_le_nat_alt tail_unat)

lemma enc3:
  assumes "unat b0 = 224 + d" "d < 16" "unat b1 = 128 + e" "e < 64" "unat b2 = 128 + f" "f < 64"
    and "d = 0 \<longrightarrow> 32 \<le> e" and "d = 13 \<longrightarrow> e < 32"
  shows "utf8clen (Some (b0 # b1 # b2 # rest)) (Some a) st = Inr (3, st)"
proof (rule valid3)
  show "is_utf8tail b2" using assms by (simp add: tail_unat)
  consider "d = 0" | "d = 13" | "1 \<le> d \<and> d \<le> 12" | "14 \<le> d \<and> d \<le> 15"
    using assms(2) by linarith
  then show "b0 = 0xE0 \<and> 0xA0 \<le> b1 \<and> b1 \<le> 0xBF \<or>
           (0xE1 \<le> b0 \<and> b0 \<le> 0xEC \<or> 0xEE \<le> b0 \<and> b0 \<le> 0xEF) \<and> is_utf8tail b1 \<or>
           b0 = 0xED \<and> 0x80 \<le> b1 \<and> b1 \<le> 0x9F"
  proof cases
    case 1
    with assms have "b0 = 0xE0 \<and> 0xA0 \<le> b1 \<and> b1 \<le> 0xBF"
      by (simp add: word_le_nat_alt byte_eq_iff [of b0])
    then show ?thesis by blast
  next
    case 2
    with assms have "b0 = 0xED \<and> 0x80 \<le> b1 \<and> b1 \<le> 0x9F"
      by (simp add: word_le_nat_alt byte_eq_iff [of b0])
    then show ?thesis by blast
  next
    case 3
    with assms have "(0xE1 \<le> b0 \<and> b0 \<le> 0xEC) \<and> is_utf8tail b1"
      by (simp add: word_le_nat_alt tail_unat)
    then show ?thesis by blast
  next
    case 4
    with assms have "(0xEE \<le> b0 \<and> b0 \<le> 0xEF) \<and> is_utf8tail b1"
      by (simp add: word_le_nat_alt tail_unat)
    then show ?thesis by blast
  qed
qed

lemma enc4:
  assumes "unat b0 = 240 + d" "d < 5" "unat b1 = 128 + e" "e < 64" "unat b2 = 128 + f" "f < 64"
    and "unat b3 = 128 + g" "g < 64"
    and "d = 0 \<longrightarrow> 16 \<le> e" and "d = 4 \<longrightarrow> e < 16"
  shows "utf8clen (Some (b0 # b1 # b2 # b3 # rest)) (Some a) st = Inr (4, st)"
proof (rule valid4)
  show "is_utf8tail b2" "is_utf8tail b3" using assms by (simp_all add: tail_unat)
  consider "d = 0" | "d = 4" | "1 \<le> d \<and> d \<le> 3"
    using assms(2) by linarith
  then show "b0 = 0xF0 \<and> 0x90 \<le> b1 \<and> b1 \<le> 0xBF \<or>
           (0xF1 \<le> b0 \<and> b0 \<le> 0xF3) \<and> is_utf8tail b1 \<or>
           b0 = 0xF4 \<and> 0x80 \<le> b1 \<and> b1 \<le> 0x8F"
  proof cases
    case 1
    with assms have "b0 = 0xF0 \<and> 0x90 \<le> b1 \<and> b1 \<le> 0xBF"
      by (simp add: word_le_nat_alt byte_eq_iff [of b0])
    then show ?thesis by blast
  next
    case 2
    with assms have "b0 = 0xF4 \<and> 0x80 \<le> b1 \<and> b1 \<le> 0x8F"
      by (simp add: word_le_nat_alt byte_eq_iff [of b0])
    then show ?thesis by blast
  next
    case 3
    with assms have "(0xF1 \<le> b0 \<and> b0 \<le> 0xF3) \<and> is_utf8tail b1"
      by (simp add: word_le_nat_alt tail_unat)
    then show ?thesis by blast
  qed
qed

lemma split3: "(cp :: nat) = cp div 4096 * 4096 + cp div 64 mod 64 * 64 + cp mod 64"
proof -
  define q r d e where "q = cp div 64" and "r = cp mod 64" and "d = q div 64" and "e = q mod 64"
  have "cp = q * 64 + r" unfolding q_def r_def by simp
  moreover have "q = d * 64 + e" unfolding d_def e_def by simp
  ultimately have "cp = d * 4096 + e * 64 + r" by simp
  moreover have "d = cp div 4096" unfolding d_def q_def by (simp add: div_mult2_eq [symmetric])
  ultimately show ?thesis unfolding e_def r_def q_def by simp
qed

lemma split4:
  "(cp :: nat) = cp div 262144 * 262144 + cp div 4096 mod 64 * 4096 + cp div 64 mod 64 * 64 +
     cp mod 64"
proof -
  define q d e f g where "q = cp div 4096" and "d = q div 64" and "e = q mod 64"
    and "f = cp div 64 mod 64" and "g = cp mod 64"
  have "cp = q * 4096 + f * 64 + g" unfolding q_def f_def g_def by (rule split3)
  moreover have "q = d * 64 + e" unfolding d_def e_def by simp
  ultimately have "cp = d * 262144 + e * 4096 + f * 64 + g" by simp
  moreover have "d = cp div 262144" unfolding d_def q_def by (simp add: div_mult2_eq [symmetric])
  ultimately show ?thesis unfolding e_def f_def g_def q_def by simp
qed

section \<open>The tests of the repository\<close>

text \<open>Every \<open>test_case\<close> call of \<open>test/test_utf8clen.c\<close>, with the terminator of the
  string literal written out, gives the expected pair on the model.\<close>

lemma test_utf8clen:
  "test_case [0x41, 0x00] = Inr (1, 0)"
  "test_case [0x31, 0x00] = Inr (1, 0)"
  "test_case [0x20, 0x00] = Inr (1, 0)"
  "test_case [0x00, 0x00] = Inr (1, 0)"
  "test_case [0x80, 0x00] = Inr (0, 1)"
  "test_case [0xBF, 0x00] = Inr (0, 1)"
  "test_case [0x80, 0x80, 0x80, 0x00] = Inr (0, 3)"
  "test_case [0xC3, 0xA1, 0x00] = Inr (2, 0)"
  "test_case [0xC3, 0xA9, 0x00] = Inr (2, 0)"
  "test_case [0xC2, 0xA9, 0x00] = Inr (2, 0)"
  "test_case [0xC3, 0xA1, 0x5A, 0x00] = Inr (2, 0)"
  "test_case [0xC3, 0x00] = Inr (0, 1)"
  "test_case [0xC3, 0x00, 0x00] = Inr (0, 1)"
  "test_case [0xC3, 0xC0, 0x00] = Inr (0, 2)"
  "test_case [0xE0, 0xB8, 0x8B, 0x00] = Inr (3, 0)"
  "test_case [0xE3, 0x81, 0x82, 0x00] = Inr (3, 0)"
  "test_case [0xE4, 0xB8, 0xAD, 0x00] = Inr (3, 0)"
  "test_case [0xED, 0x80, 0x80, 0x00] = Inr (3, 0)"
  "test_case [0xED, 0x9F, 0xBF, 0x00] = Inr (3, 0)"
  "test_case [0xEE, 0x80, 0x80, 0x00] = Inr (3, 0)"
  "test_case [0xEF, 0xBB, 0xBF, 0x00] = Inr (3, 0)"
  "test_case [0xE0, 0x70, 0x82, 0x00] = Inr (0, 1)"
  "test_case [0xE0, 0x00] = Inr (0, 1)"
  "test_case [0xE3, 0x81, 0x00] = Inr (0, 2)"
  "test_case [0xE3, 0x81, 0x00, 0x00] = Inr (0, 2)"
  "test_case [0xED, 0xA0, 0x80, 0x00] = Inr (0, 3)"
  "test_case [0xED, 0x00] = Inr (0, 1)"
  "test_case [0xEE, 0x81, 0x00, 0x00] = Inr (0, 2)"
  "test_case [0xEF, 0x00, 0x80, 0x00] = Inr (0, 1)"
  "test_case [0xF0, 0x9F, 0x98, 0x82, 0x00] = Inr (4, 0)"
  "test_case [0xF0, 0x9D, 0x84, 0x9E, 0x00] = Inr (4, 0)"
  "test_case [0xF1, 0x80, 0x80, 0x80, 0x00] = Inr (4, 0)"
  "test_case [0xF2, 0x80, 0x80, 0x80, 0x00] = Inr (4, 0)"
  "test_case [0xF3, 0x80, 0x80, 0x80, 0x00] = Inr (4, 0)"
  "test_case [0xF4, 0x80, 0x80, 0x80, 0x00] = Inr (4, 0)"
  "test_case [0xF4, 0x8F, 0xBF, 0xBF, 0x00] = Inr (4, 0)"
  "test_case [0xF0, 0x70, 0x98, 0x82, 0x00] = Inr (0, 1)"
  "test_case [0xF0, 0x9F, 0x98, 0x00] = Inr (0, 3)"
  "test_case [0xF0, 0x9F, 0x00, 0x82, 0x00] = Inr (0, 2)"
  "test_case [0xF0, 0x9F, 0x98, 0x00, 0x00] = Inr (0, 3)"
  "test_case [0xF1, 0x00, 0x80, 0x80, 0x00] = Inr (0, 1)"
  "test_case [0xF2, 0x80, 0x00, 0x80, 0x00] = Inr (0, 2)"
  "test_case [0xF3, 0x80, 0x80, 0x00, 0x00] = Inr (0, 3)"
  "test_case [0xF4, 0x90, 0x80, 0x80, 0x00] = Inr (0, 4)"
  "test_case [0xF4, 0x80, 0x00, 0x80, 0x00] = Inr (0, 2)"
  "test_case [0xF4, 0x80, 0x80, 0x00, 0x00] = Inr (0, 3)"
  "test_case [0xF5, 0x00] = Inr (0, 1)"
  "test_case [0xF8, 0x00] = Inr (0, 1)"
  "test_case [0xC1, 0x81, 0x00] = Inr (0, 2)"
  "test_case [0xE0, 0x80, 0xAF, 0x00] = Inr (0, 3)"
  "test_case [0xED, 0xBF, 0xBF, 0x00] = Inr (0, 3)"
  by (simp_all add: test_case_def st0_def utf8clen_def rd_def bnd_def andE_def branch_def
      tail_at_def range_at_def illegal_def count_illegal_sequences_def count_loop.simps
      is_utf8tail_def is_utf8firstb_def SIZE_MAX_def)

section \<open>The claims\<close>

text \<open>
  C8 (ASCII identity).  When the byte at the cursor is at most \<open>0x7F\<close>, NUL included,
  \<open>utf8clen\<close> returns 1 and leaves the state as it was.  The bytes after it are
  arbitrary and may be absent altogether: no further byte is read.
\<close>

theorem C8_ascii_identity:
  "b \<le> 0x7F \<Longrightarrow> utf8clen (Some (b # rest)) (Some a) st = Inr (1, st)"
  by (rule valid1)

theorem C8_ascii_identity_witness:
  "(0 :: byte) \<le> 0x7F \<and> utf8clen (Some [0]) (Some 0) st0 = Inr (1, st0)"
  using C8_ascii_identity [of 0 "[]" 0 st0] by simp

text \<open>
  C9 (parameter misuse).  When \<open>s\<close> or \<open>illlen\<close> is null, \<open>utf8clen\<close> returns
  \<open>SIZE_MAX\<close>; the only change to the state is \<open>errno = EINVAL\<close>, so no cell of the
  store is written.
\<close>

theorem C9_null_parameter:
  "sp = None \<or> ip = None \<Longrightarrow> utf8clen sp ip st = Inr (SIZE_MAX, st\<lparr>errno := EINVAL\<rparr>)"
  by (auto simp: utf8clen_def split: option.splits)

theorem C9_null_parameter_witness:
  "((None :: byte list option) = None \<or> Some (0 :: addr) = None) \<and>
   utf8clen None (Some 0) st0 = Inr (SIZE_MAX, st0\<lparr>errno := EINVAL\<rparr>) \<and>
   (Some [0x74, 0x65, 0x73, 0x74, 0 :: byte] = None \<or> (None :: addr option) = None) \<and>
   utf8clen (Some [0x74, 0x65, 0x73, 0x74, 0]) None st0 = Inr (SIZE_MAX, st0\<lparr>errno := EINVAL\<rparr>)"
  using C9_null_parameter [of None "Some 0" st0]
    C9_null_parameter [of "Some [0x74, 0x65, 0x73, 0x74, 0]" None st0]
  by simp

text \<open>
  C7 (truncation).  A lead byte of a multi-byte sequence (\<open>C2\<close>-\<open>DF\<close>, \<open>E0\<close>-\<open>EF\<close>,
  \<open>F0\<close>-\<open>F4\<close>) followed at once by the terminator gives return value 0 and the
  illegal-run length 1.
\<close>

theorem C7_truncated_lead:
  "0xC2 \<le> b0 \<and> b0 \<le> 0xDF \<or> 0xE0 \<le> b0 \<and> b0 \<le> 0xEF \<or> 0xF0 \<le> b0 \<and> b0 \<le> 0xF4 \<Longrightarrow>
   utf8clen (Some (b0 # 0 # rest)) (Some a) st = Inr (0, st\<lparr>heap := (heap st)(a := 1)\<rparr>)"
  by (rule trunc1)

theorem C7_truncated_lead_witness:
  "((0xC2 :: byte) \<le> 0xC3 \<and> (0xC3 :: byte) \<le> 0xDF \<or>
    (0xE0 :: byte) \<le> 0xC3 \<and> (0xC3 :: byte) \<le> 0xEF \<or>
    (0xF0 :: byte) \<le> 0xC3 \<and> (0xC3 :: byte) \<le> 0xF4) \<and>
   utf8clen (Some [0xC3, 0]) (Some 0) st0 = Inr (0, st0\<lparr>heap := (heap st0)(0 := 1)\<rparr>)"
  using C7_truncated_lead [of "0xC3" "[]" 0 st0] by simp

text \<open>
  C5 (surrogates).  \<open>ED b1 b2\<close> with \<open>b1\<close> in \<open>A0\<close>-\<open>BF\<close> and \<open>b2\<close> in \<open>80\<close>-\<open>BF\<close>
  (the encodings of U+D800 to U+DFFF), followed by at least one more byte of the buffer
  (the terminator, in the shortest case), gives return value 0 and the illegal-run
  length 3; the input \<open>ED A0 80\<close> with its terminator is the witness.
\<close>

theorem C5_surrogate_rejected:
  "0xA0 \<le> b1 \<Longrightarrow> b1 \<le> 0xBF \<Longrightarrow> 0x80 \<le> b2 \<Longrightarrow> b2 \<le> 0xBF \<Longrightarrow>
   utf8clen (Some (0xED # b1 # b2 # t # rest)) (Some a) st =
   Inr (0, st\<lparr>heap := (heap st)(a := 3)\<rparr>)"
  by (rule surrogate3)

theorem C5_surrogate_rejected_witness:
  "(0xA0 :: byte) \<le> 0xA0 \<and> (0xA0 :: byte) \<le> 0xBF \<and> (0x80 :: byte) \<le> 0x80 \<and>
   (0x80 :: byte) \<le> 0xBF \<and>
   utf8clen (Some [0xED, 0xA0, 0x80, 0]) (Some 0) st0 =
   Inr (0, st0\<lparr>heap := (heap st0)(0 := 3)\<rparr>)"
  using C5_surrogate_rejected [of "0xA0" "0x80" 0 "[]" 0 st0] by simp

text \<open>
  C2 (illegal-run length).  On a NUL-terminated buffer on which \<open>utf8clen\<close> returns 0,
  the only change to the state is that the output cell holds a run length \<open>k\<close> with:
  \<open>k \<ge> 1\<close>; the bytes at offsets \<open>1\<close> to \<open>k - 1\<close> are neither NUL nor a valid first
  byte; \<open>k\<close> is at most the bound of the lead byte, which is 2, 3 or 4 for a lead in
  \<open>C2\<close>-\<open>DF\<close>, \<open>E0\<close>-\<open>EF\<close>, \<open>F0\<close>-\<open>F4\<close> and \<open>SIZE_MAX\<close> otherwise; the byte at
  offset \<open>k\<close> is inside the buffer and is the terminator or a valid first byte, unless
  \<open>k\<close> is the bound.  For a lead outside those ranges and a buffer of at most
  \<open>SIZE_MAX\<close> bytes the bound is never reached: the run is unbounded.
\<close>

theorem C2_illegal_run:
  assumes "0 \<in> set s" and "utf8clen (Some s) (Some a) st = Inr (0, st')"
  shows "\<exists>k. st' = st\<lparr>heap := (heap st)(a := k)\<rparr> \<and> 1 \<le> k \<and> unat k < length s \<and>
    (\<forall>i\<in>{1..<unat k}. s ! i \<noteq> 0 \<and> \<not> is_utf8firstb (s ! i)) \<and>
    cap (s ! 0) = (if 0xC2 \<le> s ! 0 \<and> s ! 0 \<le> 0xDF then 2
                   else if 0xE0 \<le> s ! 0 \<and> s ! 0 \<le> 0xEF then 3
                   else if 0xF0 \<le> s ! 0 \<and> s ! 0 \<le> 0xF4 then 4 else SIZE_MAX) \<and>
    k \<le> cap (s ! 0) \<and>
    (s ! unat k = 0 \<or> is_utf8firstb (s ! unat k) \<or> k = cap (s ! 0)) \<and>
    (cap (s ! 0) = SIZE_MAX \<and> length s \<le> unat SIZE_MAX \<longrightarrow>
       s ! unat k = 0 \<or> is_utf8firstb (s ! unat k))"
proof -
  from utf8clen_invalid_run [OF assms]
  obtain k where ok: "run_ok s (cap (s ! 0)) 1 k" and st': "st' = st\<lparr>heap := (heap st)(a := k)\<rparr>"
    by blast
  have "cap (s ! 0) = SIZE_MAX \<and> length s \<le> unat SIZE_MAX \<longrightarrow>
       s ! unat k = 0 \<or> is_utf8firstb (s ! unat k)"
  proof
    assume a: "cap (s ! 0) = SIZE_MAX \<and> length s \<le> unat SIZE_MAX"
    with ok have "unat k < unat SIZE_MAX" by (simp add: run_ok_def)
    then have "k \<noteq> SIZE_MAX" by auto
    with ok a show "s ! unat k = 0 \<or> is_utf8firstb (s ! unat k)" by (simp add: run_ok_def)
  qed
  with ok st' cap_ranges [of "s ! 0"] show ?thesis
    unfolding run_ok_def by (intro exI [of _ k]) simp
qed


theorem C2_illegal_run_witness:
  "0 \<in> set [0xE3, 0x81, 0 :: byte] \<and>
   utf8clen (Some [0xE3, 0x81, 0]) (Some 0) st0 = Inr (0, st0\<lparr>heap := (heap st0)(0 := 2)\<rparr>) \<and>
   [0xE3, 0x81, 0 :: byte] ! 1 \<noteq> 0 \<and> \<not> is_utf8firstb ([0xE3, 0x81, 0] ! 1) \<and>
   cap 0xE3 = 3 \<and> [0xE3, 0x81, 0 :: byte] ! 2 = 0"
proof -
  let ?s = "[0xE3, 0x81, 0 :: byte]"
  have h1: "0 \<in> set ?s" by simp
  have h2: "utf8clen (Some ?s) (Some 0) st0 = Inr (0, st0\<lparr>heap := (heap st0)(0 := 2)\<rparr>)"
    by (simp add: utf8clen_def rd_def bnd_def andE_def branch_def tail_at_def illegal_def
        count_illegal_sequences_def count_loop.simps is_utf8tail_def is_utf8firstb_def)
  from C2_illegal_run [OF h1 h2]
  obtain k where eq: "st0\<lparr>heap := (heap st0)(0 := 2)\<rparr> = st0\<lparr>heap := (heap st0)(0 := k)\<rparr>"
    and run: "\<forall>i\<in>{1..<unat k}. ?s ! i \<noteq> 0 \<and> \<not> is_utf8firstb (?s ! i)"
    and cp: "cap (?s ! 0) = (if 0xC2 \<le> ?s ! 0 \<and> ?s ! 0 \<le> 0xDF then 2
                   else if 0xE0 \<le> ?s ! 0 \<and> ?s ! 0 \<le> 0xEF then 3
                   else if 0xF0 \<le> ?s ! 0 \<and> ?s ! 0 \<le> 0xF4 then 4 else SIZE_MAX)"
    by blast
  from eq have "heap (st0\<lparr>heap := (heap st0)(0 := 2)\<rparr>) 0 =
      heap (st0\<lparr>heap := (heap st0)(0 := k)\<rparr>) 0" by (rule arg_cong)
  then have k: "k = 2" by simp
  have "1 \<in> {1..<unat (2 :: size_t)}" by simp
  with run have "?s ! 1 \<noteq> 0 \<and> \<not> is_utf8firstb (?s ! 1)" unfolding k by (rule bspec)
  moreover from cp have "cap 0xE3 = 3" by simp
  ultimately show ?thesis using h1 h2 by simp
qed

text \<open>
  C3 (ceiling rejection).  As stated, the claim fails: for the lead byte \<open>F5\<close> followed
  by \<open>80\<close> and the terminator, \<open>utf8clen\<close> returns 0 with the illegal-run length 2, not
  1, because the run counter of the last branch steps over every following byte that is
  neither NUL nor a valid first byte.
\<close>

theorem C3_ceiling_counterexample:
  "utf8clen (Some [0xF5, 0x80, 0]) (Some 0) st0 = Inr (0, st0\<lparr>heap := (heap st0)(0 := 2)\<rparr>) \<and>
   utf8clen (Some [0xF5, 0x80, 0]) (Some 0) st0 \<noteq> Inr (0, st0\<lparr>heap := (heap st0)(0 := 1)\<rparr>)"
proof -
  have e: "utf8clen (Some [0xF5, 0x80, 0]) (Some 0) st0 =
      Inr (0, st0\<lparr>heap := (heap st0)(0 := 2)\<rparr>)"
    by (simp add: utf8clen_def rd_def bnd_def illegal_def count_illegal_sequences_def
        count_loop.simps is_utf8firstb_def SIZE_MAX_def)
  have "heap (st0\<lparr>heap := (heap st0)(0 := 2)\<rparr>) 0 \<noteq> heap (st0\<lparr>heap := (heap st0)(0 := 1)\<rparr>) 0"
    by simp
  then have "st0\<lparr>heap := (heap st0)(0 := 2)\<rparr> \<noteq> st0\<lparr>heap := (heap st0)(0 := 1)\<rparr>"
    by metis
  with e show ?thesis by simp
qed


text \<open>
  C3, as the code has it.  For a lead byte in \<open>F5\<close>-\<open>FF\<close> at the cursor of a
  NUL-terminated buffer, \<open>utf8clen\<close> returns 0 and stores an illegal-run length
  \<open>k \<ge> 1\<close>, the offset of the first byte after the lead that is the terminator or a
  valid first byte: the bytes at offsets \<open>1\<close> to \<open>k - 1\<close> are neither, the byte at
  offset \<open>k\<close> is inside the buffer and is one of the two (the bound \<open>SIZE_MAX\<close> of the
  scan is out of reach in a buffer of at most \<open>SIZE_MAX\<close> bytes).  So \<open>k\<close> is 1
  exactly when the byte after the lead is the terminator or a valid first byte.
\<close>

theorem C3_ceiling_run:
  assumes "0xF5 \<le> b0" and "0 \<in> set (b1 # rest)"
  shows "\<exists>k. utf8clen (Some (b0 # b1 # rest)) (Some a) st =
            Inr (0, st\<lparr>heap := (heap st)(a := k)\<rparr>) \<and>
          1 \<le> k \<and> (k = 1 \<longleftrightarrow> b1 = 0 \<or> is_utf8firstb b1) \<and>
          unat k < length (b0 # b1 # rest) \<and>
          (\<forall>i\<in>{1..<unat k}. (b0 # b1 # rest) ! i \<noteq> 0 \<and>
             \<not> is_utf8firstb ((b0 # b1 # rest) ! i)) \<and>
          ((b0 # b1 # rest) ! unat k = 0 \<or> is_utf8firstb ((b0 # b1 # rest) ! unat k) \<or>
           k = SIZE_MAX) \<and>
          (length (b0 # b1 # rest) \<le> unat SIZE_MAX \<longrightarrow>
             (b0 # b1 # rest) ! unat k = 0 \<or> is_utf8firstb ((b0 # b1 # rest) ! unat k))"
proof -
  let ?s = "b0 # b1 # rest"
  have nz: "?s ! 0 \<noteq> 0" using assms(1) by auto
  have nul: "0 \<in> set ?s" using assms(2) by simp
  have "(1 :: size_t) \<le> SIZE_MAX" by (simp add: SIZE_MAX_def)
  from illegal_run [OF nul nz this]
  obtain k where ok: "run_ok ?s SIZE_MAX 1 k"
    and ill: "illegal ?s SIZE_MAX a st = Inr (0, st\<lparr>heap := (heap st)(a := k)\<rparr>)"
    by blast
  have ret: "utf8clen (Some ?s) (Some a) st = Inr (0, st\<lparr>heap := (heap st)(a := k)\<rparr>)"
    using assms(1) ill by (simp add: invalid_lead_chain)
  have ge: "1 \<le> k" using ok by (simp add: run_ok_def)
  have inb: "unat k < length ?s" using ok by (simp add: run_ok_def)
  have run: "\<forall>i\<in>{1..<unat k}. ?s ! i \<noteq> 0 \<and> \<not> is_utf8firstb (?s ! i)"
    using ok by (simp add: run_ok_def)
  have stop: "?s ! unat k = 0 \<or> is_utf8firstb (?s ! unat k) \<or> k = SIZE_MAX"
    using ok unfolding run_ok_def by blast
  have sized: "length ?s \<le> unat SIZE_MAX \<longrightarrow> ?s ! unat k = 0 \<or> is_utf8firstb (?s ! unat k)"
  proof
    assume "length ?s \<le> unat SIZE_MAX"
    with inb have "unat k < unat SIZE_MAX" by simp
    then have "k \<noteq> SIZE_MAX" by auto
    with stop show "?s ! unat k = 0 \<or> is_utf8firstb (?s ! unat k)" by blast
  qed
  have one: "k = 1 \<longleftrightarrow> b1 = 0 \<or> is_utf8firstb b1"
  proof
    assume "k = 1"
    with ok show "b1 = 0 \<or> is_utf8firstb b1" by (simp add: run_ok_def SIZE_MAX_def)
  next
    assume b: "b1 = 0 \<or> is_utf8firstb b1"
    show "k = 1"
    proof (rule ccontr)
      assume "k \<noteq> 1"
      with ge have "1 < unat k" by (simp add: word_le_nat_alt word_unat_eq_iff)
      then have "1 \<in> {1..<unat k}" by simp
      with run have "?s ! 1 \<noteq> 0 \<and> \<not> is_utf8firstb (?s ! 1)" by (rule bspec)
      with b show False by simp
    qed
  qed
  from ret ge one inb run stop sized show ?thesis by blast
qed

theorem C3_ceiling_run_witness:
  "(0xF5 :: byte) \<le> 0xF5 \<and> 0 \<in> set [0x80, 0x80, 0 :: byte] \<and>
   utf8clen (Some [0xF5, 0x80, 0x80, 0]) (Some 0) st0 =
     Inr (0, st0\<lparr>heap := (heap st0)(0 := 3)\<rparr>) \<and>
   (3 :: size_t) \<noteq> 1 \<and> (0x80 :: byte) \<noteq> 0 \<and> \<not> is_utf8firstb 0x80 \<and>
   unat (3 :: size_t) < length [0xF5, 0x80, 0x80, 0 :: byte] \<and>
   [0xF5, 0x80, 0x80, 0 :: byte] ! 1 \<noteq> 0 \<and> \<not> is_utf8firstb ([0xF5, 0x80, 0x80, 0] ! 1) \<and>
   [0xF5, 0x80, 0x80, 0 :: byte] ! 2 \<noteq> 0 \<and> \<not> is_utf8firstb ([0xF5, 0x80, 0x80, 0] ! 2) \<and>
   [0xF5, 0x80, 0x80, 0 :: byte] ! 3 = 0"
proof -
  let ?s = "[0xF5, 0x80, 0x80, 0 :: byte]"
  have h1: "(0xF5 :: byte) \<le> 0xF5" by simp
  have h2: "0 \<in> set [0x80, 0x80, 0 :: byte]" by simp
  have len: "length ?s \<le> unat SIZE_MAX" by (simp add: SIZE_MAX_def)
  from C3_ceiling_run [OF h1 h2, of 0 st0]
  obtain k where ret: "utf8clen (Some ?s) (Some 0) st0 = Inr (0, st0\<lparr>heap := (heap st0)(0 := k)\<rparr>)"
    and one: "k = 1 \<longleftrightarrow> (0x80 :: byte) = 0 \<or> is_utf8firstb 0x80"
    and inb: "unat k < length ?s"
    and run: "\<forall>i\<in>{1..<unat k}. ?s ! i \<noteq> 0 \<and> \<not> is_utf8firstb (?s ! i)"
    and sized: "length ?s \<le> unat SIZE_MAX \<longrightarrow> ?s ! unat k = 0 \<or> is_utf8firstb (?s ! unat k)"
    by blast
  have e: "utf8clen (Some ?s) (Some 0) st0 = Inr (0, st0\<lparr>heap := (heap st0)(0 := 3)\<rparr>)"
    by (simp add: utf8clen_def rd_def bnd_def illegal_def count_illegal_sequences_def
        count_loop.simps is_utf8firstb_def SIZE_MAX_def)
  with ret have "st0\<lparr>heap := (heap st0)(0 := 3)\<rparr> = st0\<lparr>heap := (heap st0)(0 := k)\<rparr>" by simp
  then have "heap (st0\<lparr>heap := (heap st0)(0 := 3)\<rparr>) 0 =
      heap (st0\<lparr>heap := (heap st0)(0 := k)\<rparr>) 0" by (rule arg_cong)
  then have k: "k = 3" by simp
  have n1: "(0x80 :: byte) \<noteq> 0 \<and> \<not> is_utf8firstb 0x80" using one unfolding k by simp
  have "1 \<in> {1..<unat (3 :: size_t)}" "2 \<in> {1..<unat (3 :: size_t)}" by simp_all
  with run have r1: "?s ! 1 \<noteq> 0 \<and> \<not> is_utf8firstb (?s ! 1)"
    and r2: "?s ! 2 \<noteq> 0 \<and> \<not> is_utf8firstb (?s ! 2)" unfolding k by blast+
  from sized len have "?s ! unat k = 0 \<or> is_utf8firstb (?s ! unat k)" by blast
  then have r3: "?s ! 3 = 0" unfolding k by (simp add: is_utf8firstb_def)
  have "(3 :: size_t) \<noteq> 1" by simp
  moreover have "unat (3 :: size_t) < length ?s" using inb unfolding k .
  ultimately show ?thesis using h1 h2 e n1 r1 r2 r3 by blast
qed


text \<open>
  C4 (totality, reads bounded by the terminator).  On a buffer that ends at its first
  NUL, \<open>utf8clen\<close> returns: no read is out of bounds, that is, no read has an index
  above that of the terminator.  The result is a length from 1 to 4 with the state
  unchanged, or 0 with a run length of at least 1 stored in the output cell.  Whatever
  bytes follow the first NUL, the result is the same.
\<close>

theorem C4_total_within_terminator:
  assumes "0 \<notin> set pre"
  shows "(\<exists>r st'. utf8clen (Some (pre @ [0])) (Some a) st = Inr (r, st') \<and>
            (r \<in> {1, 2, 3, 4} \<and> st' = st \<or>
             r = 0 \<and> (\<exists>k. 1 \<le> k \<and> st' = st\<lparr>heap := (heap st)(a := k)\<rparr>))) \<and>
         (\<forall>rest. utf8clen (Some (pre @ 0 # rest)) (Some a) st =
            utf8clen (Some (pre @ [0])) (Some a) st)"
proof -
  have nul: "0 \<in> set (pre @ [0 :: byte])" by simp
  have tot: "\<exists>r st'. utf8clen (Some (pre @ [0])) (Some a) st = Inr (r, st') \<and>
            (r \<in> {1, 2, 3, 4} \<and> st' = st \<or>
             r = 0 \<and> (\<exists>k. 1 \<le> k \<and> st' = st\<lparr>heap := (heap st)(a := k)\<rparr>))"
    using good_utf8clen [OF nul]
  proof (cases rule: good_cases)
    case (valid n)
    then show ?thesis by auto
  next
    case (invalid k)
    then have "1 \<le> k" by (simp add: run_ok_def)
    with invalid(2) show ?thesis by auto
  qed
  then obtain r where r: "utf8clen (Some (pre @ [0])) (Some a) st = Inr r" by blast
  have "utf8clen (Some (pre @ 0 # rest)) (Some a) st =
            utf8clen (Some (pre @ [0])) (Some a) st" for rest
    using utf8clen_append [OF r, of rest] r by simp
  with tot show ?thesis by blast
qed

theorem C4_total_within_terminator_witness:
  "0 \<notin> set [0xF0, 0x9F, 0x98 :: byte] \<and>
   utf8clen (Some [0xF0, 0x9F, 0x98, 0]) (Some 0) st0 =
     Inr (0, st0\<lparr>heap := (heap st0)(0 := 3)\<rparr>) \<and>
   utf8clen (Some [0xF0, 0x9F, 0x98, 0, 0x82]) (Some 0) st0 =
     Inr (0, st0\<lparr>heap := (heap st0)(0 := 3)\<rparr>)"
proof -
  have h: "0 \<notin> set [0xF0, 0x9F, 0x98 :: byte]" by simp
  have e: "utf8clen (Some [0xF0, 0x9F, 0x98, 0]) (Some 0) st0 =
     Inr (0, st0\<lparr>heap := (heap st0)(0 := 3)\<rparr>)"
    by (simp add: utf8clen_def rd_def bnd_def andE_def branch_def tail_at_def range_at_def
        illegal_def count_illegal_sequences_def count_loop.simps is_utf8tail_def
        is_utf8firstb_def)
  from C4_total_within_terminator [OF h, of 0 st0]
  have "utf8clen (Some ([0xF0, 0x9F, 0x98] @ 0 # [0x82])) (Some 0) st0 =
     utf8clen (Some ([0xF0, 0x9F, 0x98] @ [0])) (Some 0) st0" by blast
  with e h show ?thesis by simp
qed

text \<open>
  C6 (overlong forms).  In a NUL-terminated buffer that starts with \<open>C0 80\<close>, with
  \<open>C1 BF\<close>, with \<open>E0 b1 b2\<close> where \<open>b1\<close> is in \<open>80\<close>-\<open>9F\<close>, or with \<open>F0 b1 b2 b3\<close>
  where \<open>b1\<close> is in \<open>80\<close>-\<open>8F\<close> (the other bytes in \<open>80\<close>-\<open>BF\<close>), \<open>utf8clen\<close>
  returns 0, and the illegal run it stores covers the whole overlong sequence.
\<close>

theorem C6_overlong_rejected:
  assumes "p = [0xC0, 0x80] \<or> p = [0xC1, 0xBF] \<or>
           p = [0xE0, b1, b2] \<and> 0x80 \<le> b1 \<and> b1 \<le> 0x9F \<and> 0x80 \<le> b2 \<and> b2 \<le> 0xBF \<or>
           p = [0xF0, b1, b2, b3] \<and> 0x80 \<le> b1 \<and> b1 \<le> 0x8F \<and> 0x80 \<le> b2 \<and> b2 \<le> 0xBF \<and>
             0x80 \<le> b3 \<and> b3 \<le> 0xBF"
    and "0 \<in> set rest"
  shows "\<exists>k. utf8clen (Some (p @ rest)) (Some a) st =
              Inr (0, st\<lparr>heap := (heap st)(a := k)\<rparr>) \<and> length p \<le> unat k"
  using assms(1)
proof (elim disjE conjE)
  assume p: "p = [0xC0, 0x80]"
  have "\<forall>i\<in>{1..<2}. is_utf8tail ((p @ rest) ! i)" unfolding p by (simp add: tail_iff)
  from illegal_covers [OF _ _ this, of SIZE_MAX a st] assms(2)
  obtain k where "illegal (p @ rest) SIZE_MAX a st = Inr (0, st\<lparr>heap := (heap st)(a := k)\<rparr>)"
    and "2 \<le> unat k" unfolding p by (auto simp: SIZE_MAX_def)
  then show ?thesis unfolding p by (intro exI [of _ k]) (simp add: invalid_lead_chain)
next
  assume p: "p = [0xC1, 0xBF]"
  have "\<forall>i\<in>{1..<2}. is_utf8tail ((p @ rest) ! i)" unfolding p by (simp add: tail_iff)
  from illegal_covers [OF _ _ this, of SIZE_MAX a st] assms(2)
  obtain k where "illegal (p @ rest) SIZE_MAX a st = Inr (0, st\<lparr>heap := (heap st)(a := k)\<rparr>)"
    and "2 \<le> unat k" unfolding p by (auto simp: SIZE_MAX_def)
  then show ?thesis unfolding p by (intro exI [of _ k]) (simp add: invalid_lead_chain)
next
  assume p: "p = [0xE0, b1, b2]" and b: "0x80 \<le> b1" "b1 \<le> 0x9F" "0x80 \<le> b2" "b2 \<le> 0xBF"
  have "b1 \<le> 0xBF" using b(2) by (simp add: word_le_nat_alt)
  with b have t: "is_utf8tail b1" "is_utf8tail b2" by (simp_all add: tail_range)
  have "i \<in> {1..<3} \<longrightarrow> is_utf8tail ((p @ rest) ! i)" for i
  proof
    assume "i \<in> {1..<3}"
    then have "i = 1 \<or> i = 2" by auto
    with t show "is_utf8tail ((p @ rest) ! i)" unfolding p by auto
  qed
  then have "\<forall>i\<in>{1..<3}. is_utf8tail ((p @ rest) ! i)" by blast
  from illegal_covers [OF _ _ this, of 3 a st] assms(2)
  obtain k where "illegal (p @ rest) 3 a st = Inr (0, st\<lparr>heap := (heap st)(a := k)\<rparr>)"
    and "3 \<le> unat k" unfolding p by auto
  then show ?thesis unfolding p using b(1,2) by (intro exI [of _ k]) (simp add: overlong_E0_chain)
next
  assume p: "p = [0xF0, b1, b2, b3]"
    and b: "0x80 \<le> b1" "b1 \<le> 0x8F" "0x80 \<le> b2" "b2 \<le> 0xBF" "0x80 \<le> b3" "b3 \<le> 0xBF"
  have "b1 \<le> 0xBF" using b(2) by (simp add: word_le_nat_alt)
  with b have t: "is_utf8tail b1" "is_utf8tail b2" "is_utf8tail b3" by (simp_all add: tail_range)
  have "i \<in> {1..<4} \<longrightarrow> is_utf8tail ((p @ rest) ! i)" for i
  proof
    assume "i \<in> {1..<4}"
    then have "i = 1 \<or> i = 2 \<or> i = 3" by auto
    with t show "is_utf8tail ((p @ rest) ! i)" unfolding p by auto
  qed
  then have "\<forall>i\<in>{1..<4}. is_utf8tail ((p @ rest) ! i)" by blast
  from illegal_covers [OF _ _ this, of 4 a st] assms(2)
  obtain k where "illegal (p @ rest) 4 a st = Inr (0, st\<lparr>heap := (heap st)(a := k)\<rparr>)"
    and "4 \<le> unat k" unfolding p by auto
  then show ?thesis unfolding p using b(1,2) by (intro exI [of _ k]) (simp add: overlong_F0_chain)
qed

theorem C6_overlong_rejected_witness:
  "([0xE0, 0x80, 0xAF] = [0xC0, 0x80 :: byte] \<or> [0xE0, 0x80, 0xAF] = [0xC1, 0xBF :: byte] \<or>
    [0xE0, 0x80, 0xAF] = [0xE0, 0x80, 0xAF :: byte] \<and> (0x80 :: byte) \<le> 0x80 \<and>
      (0x80 :: byte) \<le> 0x9F \<and> (0x80 :: byte) \<le> 0xAF \<and> (0xAF :: byte) \<le> 0xBF \<or>
    [0xE0, 0x80, 0xAF] = [0xF0, 0x80, 0xAF, 0 :: byte] \<and> (0x80 :: byte) \<le> 0x80 \<and>
      (0x80 :: byte) \<le> 0x8F \<and> (0x80 :: byte) \<le> 0xAF \<and> (0xAF :: byte) \<le> 0xBF \<and>
      (0x80 :: byte) \<le> 0 \<and> (0 :: byte) \<le> 0xBF) \<and>
   0 \<in> set [0 :: byte] \<and>
   (\<exists>k. utf8clen (Some [0xE0, 0x80, 0xAF, 0]) (Some 0) st0 =
          Inr (0, st0\<lparr>heap := (heap st0)(0 := k)\<rparr>) \<and>
        length [0xE0, 0x80, 0xAF :: byte] \<le> unat k)"
  using C6_overlong_rejected [of "[0xE0, 0x80, 0xAF]" "0x80" "0xAF" 0 "[0]" 0 st0]
  by simp


text \<open>
  C10 (return values and frame).  For a null pointer, or a NUL-terminated buffer,
  \<open>utf8clen\<close> returns one value \<open>r\<close> out of 0, 1, 2, 3, 4 and \<open>SIZE_MAX\<close>, the same
  from every state.  When \<open>r\<close> is 0 the output pointer is not null and its cell is
  overwritten with a run length \<open>k \<ge> 1\<close>, whatever it held before; when \<open>r\<close> is not
  0 the store is as it was.
\<close>

theorem C10_return_and_frame:
  assumes "case sp of None \<Rightarrow> True | Some s \<Rightarrow> 0 \<in> set s"
  shows "\<exists>r. r \<in> {0, 1, 2, 3, 4, SIZE_MAX} \<and>
    (if r = 0
     then \<exists>a k. ip = Some a \<and> 1 \<le> k \<and>
            (\<forall>t. utf8clen sp ip t = Inr (0, t\<lparr>heap := (heap t)(a := k)\<rparr>))
     else \<forall>t. \<exists>t'. utf8clen sp ip t = Inr (r, t') \<and> heap t' = heap t)"
proof (cases "sp = None \<or> ip = None")
  case True
  then have "\<forall>t. utf8clen sp ip t = Inr (SIZE_MAX, t\<lparr>errno := EINVAL\<rparr>)"
    by (auto simp: utf8clen_def split: option.splits)
  then show ?thesis by (intro exI [of _ SIZE_MAX]) (simp add: SIZE_MAX_def)
next
  case False
  then obtain s a where sp: "sp = Some s" and ip: "ip = Some a" by auto
  with assms have nul: "0 \<in> set s" by simp
  from good_utf8clen [OF nul] show ?thesis
  proof (cases rule: good_cases)
    case (valid n)
    then have "n \<noteq> 0" by auto
    with valid show ?thesis unfolding sp ip by (intro exI [of _ n]) auto
  next
    case (invalid k)
    then have "1 \<le> k" by (simp add: run_ok_def)
    with invalid(2) show ?thesis unfolding sp ip by (intro exI [of _ 0]) auto
  qed
qed

theorem C10_return_and_frame_witness:
  "(case Some [0xC1, 0x81, 0 :: byte] of None \<Rightarrow> True | Some s \<Rightarrow> 0 \<in> set s) \<and>
   (\<exists>r. r \<in> {0, 1, 2, 3, 4, SIZE_MAX} \<and>
    (if r = 0
     then \<exists>a k. Some (0 :: addr) = Some a \<and> 1 \<le> k \<and>
            (\<forall>t. utf8clen (Some [0xC1, 0x81, 0]) (Some 0) t =
               Inr (0, t\<lparr>heap := (heap t)(a := k)\<rparr>))
     else \<forall>t. \<exists>t'. utf8clen (Some [0xC1, 0x81, 0]) (Some 0) t = Inr (r, t') \<and>
            heap t' = heap t))"
proof -
  have h: "case Some [0xC1, 0x81, 0 :: byte] of None \<Rightarrow> True | Some s \<Rightarrow> 0 \<in> set s"
    by simp
  from C10_return_and_frame [OF h, of "Some 0"] h show ?thesis by blast
qed

text \<open>
  C1 (round trip).  For every code point up to U+10FFFF outside the surrogate range, the
  reference encoding has 1 to 4 bytes, and \<open>utf8clen\<close> on that encoding followed by the
  terminator returns its length and leaves the state, the output cell included, as it
  was.
\<close>

theorem C1_round_trip:
  assumes "cp \<le> 0x10FFFF" and "\<not> (0xD800 \<le> cp \<and> cp \<le> 0xDFFF)"
  shows "length (utf8_encode_ref cp) \<in> {1, 2, 3, 4} \<and>
         utf8clen (Some (utf8_encode_ref cp @ 0 # rest)) (Some a) st =
           Inr (of_nat (length (utf8_encode_ref cp)), st)"
proof -
  consider (one) "cp < 0x80" | (two) "0x80 \<le> cp" "cp < 0x800"
    | (three) "0x800 \<le> cp" "cp < 0x10000" | (four) "0x10000 \<le> cp"
    by linarith
  then show ?thesis
  proof cases
    case one
    then have e: "utf8_encode_ref cp = [of_nat cp]" by (simp add: utf8_encode_ref_def)
    have "unat (of_nat cp :: byte) = cp" using one by (intro unat_byte) simp
    with one have "unat (of_nat cp :: byte) < 128" by simp
    then show ?thesis unfolding e by (simp add: enc1)
  next
    case two
    define d f where "d = cp div 0x40" and "f = cp mod 0x40"
    have e: "utf8_encode_ref cp = [of_nat (0xC0 + d), of_nat (0x80 + f)]"
      using two by (simp add: utf8_encode_ref_def d_def f_def)
    have cp: "cp = d * 64 + f" unfolding d_def f_def by simp
    have f: "f < 64" unfolding f_def by simp
    have b: "2 \<le> d" "d < 32" using two cp f by auto
    have u: "unat (of_nat (0xC0 + d) :: byte) = 192 + d"
      "unat (of_nat (0x80 + f) :: byte) = 128 + f"
      using b f by - (rule unat_byte, simp)+
    from enc2 [OF u(1) b u(2) f] show ?thesis unfolding e by simp
  next
    case three
    define d e f where "d = cp div 0x1000" and "e = cp div 0x40 mod 0x40" and "f = cp mod 0x40"
    have enc: "utf8_encode_ref cp = [of_nat (0xE0 + d), of_nat (0x80 + e), of_nat (0x80 + f)]"
      using three by (simp add: utf8_encode_ref_def d_def e_def f_def)
    have cp: "cp = d * 4096 + e * 64 + f" unfolding d_def e_def f_def using split3 [of cp] by simp
    have ef: "e < 64" "f < 64" unfolding e_def f_def by simp_all
    have d: "d < 16" using three cp by linarith
    have d0: "d = 0 \<longrightarrow> 32 \<le> e" using three cp ef by auto
    have d13: "d = 13 \<longrightarrow> e < 32" using three assms(2) cp ef by auto
    have u: "unat (of_nat (0xE0 + d) :: byte) = 224 + d"
      "unat (of_nat (0x80 + e) :: byte) = 128 + e" "unat (of_nat (0x80 + f) :: byte) = 128 + f"
      using d ef by - (rule unat_byte, simp)+
    from enc3 [OF u(1) d u(2) ef(1) u(3) ef(2) d0 d13] show ?thesis unfolding enc by simp
  next
    case four
    define d e f g where "d = cp div 0x40000" and "e = cp div 0x1000 mod 0x40"
      and "f = cp div 0x40 mod 0x40" and "g = cp mod 0x40"
    have enc: "utf8_encode_ref cp =
        [of_nat (0xF0 + d), of_nat (0x80 + e), of_nat (0x80 + f), of_nat (0x80 + g)]"
      using four by (simp add: utf8_encode_ref_def d_def e_def f_def g_def)
    have cp: "cp = d * 262144 + e * 4096 + f * 64 + g"
      unfolding d_def e_def f_def g_def using split4 [of cp] by simp
    have efg: "e < 64" "f < 64" "g < 64" unfolding e_def f_def g_def by simp_all
    have d: "d < 5" using assms(1) cp by linarith
    have d0: "d = 0 \<longrightarrow> 16 \<le> e" using four cp efg by auto
    have d4: "d = 4 \<longrightarrow> e < 16" using assms(1) cp efg by auto
    have u: "unat (of_nat (0xF0 + d) :: byte) = 240 + d"
      "unat (of_nat (0x80 + e) :: byte) = 128 + e" "unat (of_nat (0x80 + f) :: byte) = 128 + f"
      "unat (of_nat (0x80 + g) :: byte) = 128 + g"
      using d efg by - (rule unat_byte, simp)+
    from enc4 [OF u(1) d u(2) efg(1) u(3) efg(2) u(4) efg(3) d0 d4]
    show ?thesis unfolding enc by simp
  qed
qed


theorem C1_round_trip_witness:
  "(0x20AC :: nat) \<le> 0x10FFFF \<and> \<not> ((0xD800 :: nat) \<le> 0x20AC \<and> (0x20AC :: nat) \<le> 0xDFFF) \<and>
   utf8_encode_ref 0x20AC = [0xE2, 0x82, 0xAC] \<and>
   utf8clen (Some [0xE2, 0x82, 0xAC, 0]) (Some 0) st0 = Inr (3, st0)"
proof -
  have h1: "(0x20AC :: nat) \<le> 0x10FFFF" by simp
  have h2: "\<not> ((0xD800 :: nat) \<le> 0x20AC \<and> (0x20AC :: nat) \<le> 0xDFFF)" by simp
  have e: "utf8_encode_ref 0x20AC = [0xE2, 0x82, 0xAC]" by (simp add: utf8_encode_ref_def)
  from C1_round_trip [OF h1 h2, of "[]" 0 st0] have
    "utf8clen (Some (utf8_encode_ref 0x20AC @ [0])) (Some 0) st0 =
       Inr (of_nat (length (utf8_encode_ref 0x20AC)), st0)" by blast
  then have "utf8clen (Some [0xE2, 0x82, 0xAC, 0]) (Some 0) st0 = Inr (3, st0)"
    unfolding e by simp
  with h1 h2 e show ?thesis by blast
qed

end
